theory Spec2Isabelle
  imports Main "HOL-Library.Product_Lexorder"
begin

section \<open>Data model\<close>

text \<open>
  A cell is a pair (row, column) of Python integers.  A \<open>Sentence\<close> object holds a set
  of cells and an integer count; \<open>Sentence.__eq__\<close> compares both fields by value, which is
  the equality of the record.
\<close>

type_synonym cell = "int \<times> int"

record sentence =
  cells :: "cell set"
  count :: int

text \<open>The fields of \<open>MinesweeperAI\<close>, as \<open>__init__\<close> declares them.\<close>

record ai =
  height :: int
  width :: int
  moves_made :: "cell set"
  mines :: "cell set"
  safes :: "cell set"
  knowledge :: "sentence list"

definition init :: "int \<Rightarrow> int \<Rightarrow> ai" where
  "init h w = \<lparr>height = h, width = w, moves_made = {}, mines = {}, safes = {},
     knowledge = []\<rparr>"

section \<open>Sentence\<close>

definition known_mines :: "sentence \<Rightarrow> cell set" where
  "known_mines s = (if int (card (cells s)) = count s then cells s else {})"

definition known_safes :: "sentence \<Rightarrow> cell set" where
  "known_safes s = (if count s = 0 then cells s else {})"

definition sentence_mark_mine :: "sentence \<Rightarrow> cell \<Rightarrow> sentence" where
  "sentence_mark_mine s c =
     (if c \<in> cells s then s\<lparr>cells := cells s - {c}, count := count s - 1\<rparr> else s)"

definition sentence_mark_safe :: "sentence \<Rightarrow> cell \<Rightarrow> sentence" where
  "sentence_mark_safe s c =
     (if c \<in> cells s then s\<lparr>cells := cells s - {c}\<rparr> else s)"

section \<open>MinesweeperAI\<close>

definition mark_mine :: "ai \<Rightarrow> cell \<Rightarrow> ai" where
  "mark_mine st c =
     st\<lparr>mines := insert c (mines st),
        knowledge := map (\<lambda>s. sentence_mark_mine s c) (knowledge st)\<rparr>"

definition mark_safe :: "ai \<Rightarrow> cell \<Rightarrow> ai" where
  "mark_safe st c =
     st\<lparr>safes := insert c (safes st),
        knowledge := map (\<lambda>s. sentence_mark_safe s c) (knowledge st)\<rparr>"

text \<open>
  \<open>for x in S: body(x)\<close> over a Python set \<open>S\<close>.  Python enumerates a set in hash order;
  the model enumerates it in increasing order.  The two loops of this kind in the program
  run \<open>mark_safe\<close> and \<open>mark_mine\<close>, whose results do not depend on the order
  (lemmas \<open>fold_mark_safe_order\<close> and \<open>fold_mark_mine_order\<close> below).
\<close>

definition for_each :: "cell set \<Rightarrow> (ai \<Rightarrow> cell \<Rightarrow> ai) \<Rightarrow> ai \<Rightarrow> ai" where
  "for_each S body st = fold (\<lambda>c s. body s c) (sorted_list_of_set S) st"

text \<open>
  The body of the double loop of \<open>neighbors_to_cell\<close> at one (row, col), on the pair of
  accumulators (neighbors, mines).  The fourth conjunct of the source's test,
  \<open>(row, col) is not self.moves_made\<close>, compares the identity of a fresh tuple with that of
  the set object and is always true.
\<close>

definition neighbor_step :: "ai \<Rightarrow> cell \<Rightarrow> int \<Rightarrow> int \<Rightarrow> cell set \<times> int \<Rightarrow> cell set \<times> int" where
  "neighbor_step st c row col acc =
     (if (col \<ge> 0 \<and> col < width st) \<and> (row, col) \<noteq> c
         \<and> (row \<ge> 0 \<and> row < height st) \<and> True
      then if (row, col) \<in> mines st then (fst acc, snd acc + 1)
           else if (row, col) \<in> safes st then acc
           else (insert (row, col) (fst acc), snd acc)
      else acc)"

definition neighbors_to_cell :: "ai \<Rightarrow> cell \<Rightarrow> cell set \<times> int" where
  "neighbors_to_cell st c =
     (case c of (i, j) \<Rightarrow>
        fold (\<lambda>row acc. fold (\<lambda>col. neighbor_step st c row col) [j - 1, j, j + 1] acc)
          [i - 1, i, i + 1] ({}, 0))"

text \<open>
  \<open>add_knowledge\<close>, in the five steps of its docstring.  (The specification counts the
  guarded append of the new sentence as its step 4, the scan as step 5 and the derivation
  pass as step 6.)  Steps 1 and 2 are two set insertions.
\<close>

definition record_move :: "ai \<Rightarrow> cell \<Rightarrow> ai" where
  "record_move st c =
     (let st1 = st\<lparr>moves_made := insert c (moves_made st)\<rparr>
      in st1\<lparr>safes := insert c (safes st1)\<rparr>)"

text \<open>Step 3: the sentence built from the neighbours, and its guarded append.\<close>

definition new_sen :: "ai \<Rightarrow> cell \<Rightarrow> int \<Rightarrow> sentence" where
  "new_sen st c n =
     (let neighbors = fst (neighbors_to_cell st c);
          found_mines = snd (neighbors_to_cell st c)
      in \<lparr>cells = neighbors, count = n - found_mines\<rparr>)"

definition add_sentence :: "ai \<Rightarrow> cell \<Rightarrow> int \<Rightarrow> ai" where
  "add_sentence st c n =
     (if new_sen st c n \<notin> set (knowledge st)
      then st\<lparr>knowledge := knowledge st @ [new_sen st c n]\<rparr> else st)"

text \<open>
  Step 4: one scan of \<open>self.knowledge\<close>.  The list iterator holds an index; the sentence
  at that index is read when the iterator reaches it, after the marks of the earlier
  iterations.  Both sets are computed before either inner loop runs.
\<close>

definition scan_sentence :: "nat \<Rightarrow> ai \<Rightarrow> ai" where
  "scan_sentence i st =
     (let sen = knowledge st ! i;
          safes' = known_safes sen;
          mines' = known_mines sen
      in for_each mines' mark_mine (for_each safes' mark_safe st))"

lemma length_knowledge_fold_safe [simp]:
  "length (knowledge (fold (\<lambda>c s. mark_safe s c) xs st)) = length (knowledge st)"
  by (induction xs arbitrary: st) (simp_all add: mark_safe_def)

lemma length_knowledge_fold_mine [simp]:
  "length (knowledge (fold (\<lambda>c s. mark_mine s c) xs st)) = length (knowledge st)"
  by (induction xs arbitrary: st) (simp_all add: mark_mine_def)

lemma length_knowledge_scan [simp]:
  "length (knowledge (scan_sentence i st)) = length (knowledge st)"
  by (simp add: scan_sentence_def for_each_def Let_def)

function extract_from :: "nat \<Rightarrow> ai \<Rightarrow> ai" where
  "extract_from i st =
     (if i < length (knowledge st) then extract_from (Suc i) (scan_sentence i st) else st)"
  by pat_completeness auto
termination
  by (relation "measure (\<lambda>(i, st). length (knowledge st) - i)") auto

declare extract_from.simps [simp del]

text \<open>
  Step 5.  One (sen1, sen2) pair of the double loop: the choice of the bigger set, then
  the subset test and what follows it.  \<open>diff_set.pop()\<close> is only called on a set of one
  element and returns that element; the two tests on \<open>diff_count\<close> exclude each other.
\<close>

definition subtract :: "cell set \<Rightarrow> cell set \<Rightarrow> int \<Rightarrow> ai \<Rightarrow> ai" where
  "subtract small_set big_set diff_count st =
     (if small_set \<subseteq> big_set then
        (let diff_set = big_set - small_set in
         if card diff_set = 1 then
           (let st1 = (if diff_count = 0 then mark_safe st (the_elem diff_set) else st)
            in if diff_count = 1 then mark_mine st1 (the_elem diff_set) else st1)
         else st\<lparr>knowledge := knowledge st @ [\<lparr>cells = diff_set, count = diff_count\<rparr>]\<rparr>)
      else st)"

definition derive_pair :: "sentence \<Rightarrow> sentence \<Rightarrow> ai \<Rightarrow> ai" where
  "derive_pair sen1 sen2 st =
     (if card (cells sen1) > card (cells sen2)
         \<and> card (cells sen1) \<noteq> 0 \<and> card (cells sen2) \<noteq> 0
      then subtract (cells sen2) (cells sen1) (count sen1 - count sen2) st
      else if card (cells sen2) > card (cells sen1)
         \<and> card (cells sen1) \<noteq> 0 \<and> card (cells sen2) \<noteq> 0
      then subtract (cells sen1) (cells sen2) (count sen2 - count sen1) st
      else if card (cells sen1) = card (cells sen2) then st
      else st)"

text \<open>
  The outer loop iterates over \<open>known_sentences\<close> by index while its body removes from
  that same list the first element equal to \<open>sen1\<close>; the inner loop runs over what is left.
  The next iteration reads index \<open>i + 1\<close> of the shortened list.
\<close>

function derive_from :: "nat \<Rightarrow> sentence list \<Rightarrow> ai \<Rightarrow> ai" where
  "derive_from i known_sentences st =
     (if i < length known_sentences then
        (let sen1 = known_sentences ! i;
             rest = remove1 sen1 known_sentences
         in derive_from (Suc i) rest (fold (derive_pair sen1) rest st))
      else st)"
  by pat_completeness auto
termination
  by (relation "measure (\<lambda>(i, ks, st). length ks - i)") (auto simp: length_remove1)

declare derive_from.simps [simp del]

definition extract_facts :: "ai \<Rightarrow> ai" where
  "extract_facts st = extract_from 0 st"

text \<open>\<open>copy.deepcopy(self.knowledge)\<close> is the list of sentence values at that moment.\<close>

definition derive :: "ai \<Rightarrow> ai" where
  "derive st = derive_from 0 (knowledge st) st"

definition add_knowledge :: "ai \<Rightarrow> cell \<Rightarrow> int \<Rightarrow> ai" where
  "add_knowledge st c n = derive (extract_facts (add_sentence (record_move st c) c n))"

text \<open>
  \<open>make_safe_move\<close>: the loop over \<open>self.safes\<close> returns the first cell that is not in
  \<open>moves_made\<close>; the trailing \<open>return None\<close> inside the loop body is unreachable, and
  falling off the loop returns \<open>None\<close>.  Which cell comes first depends on the order in
  which Python enumerates the set, so that order is an argument.
\<close>

fun safe_move_loop :: "cell list \<Rightarrow> ai \<Rightarrow> cell option \<times> ai" where
  "safe_move_loop [] st = (None, st)"
| "safe_move_loop (i # rest) st =
     (if i \<in> moves_made st then safe_move_loop rest st
      else (Some i, st\<lparr>moves_made := insert i (moves_made st)\<rparr>))"

definition make_safe_move :: "cell list \<Rightarrow> ai \<Rightarrow> cell option \<times> ai" where
  "make_safe_move order st = safe_move_loop order st"

text \<open>
  \<open>make_random_move\<close>: \<open>random.choice\<close> returns the element at a random index below the
  length of the list; the random number is an argument, reduced modulo the length.
\<close>

definition board :: "ai \<Rightarrow> cell list" where
  "board st = concat (map (\<lambda>row. map (\<lambda>col. (row, col)) [0..width st - 1]) [0..height st - 1])"

definition future_moves :: "ai \<Rightarrow> cell list" where
  "future_moves st = filter (\<lambda>c. c \<notin> mines st \<and> c \<notin> moves_made st) (board st)"

definition make_random_move :: "nat \<Rightarrow> ai \<Rightarrow> cell option \<times> ai" where
  "make_random_move r st =
     (if length (future_moves st) = 0 then (None, st)
      else (let random_move = future_moves st ! (r mod length (future_moves st))
            in (Some random_move, st\<lparr>moves_made := insert random_move (moves_made st)\<rparr>)))"

section \<open>Minesweeper\<close>

text \<open>
  The game object that answers the probes.  \<open>__init__\<close> sets \<open>board[i][j]\<close> exactly for the
  cells it adds to \<open>mines\<close>, so the board is the set of mined cells; \<open>nearby_mines\<close> reads
  it only after its bounds test.
\<close>

record minesweeper =
  board_height :: int
  board_width :: int
  board_mines :: "cell set"

definition nearby_step :: "minesweeper \<Rightarrow> cell \<Rightarrow> int \<Rightarrow> int \<Rightarrow> int \<Rightarrow> int" where
  "nearby_step g c i j cnt =
     (if (i, j) = c then cnt
      else if 0 \<le> i \<and> i < board_height g \<and> 0 \<le> j \<and> j < board_width g
      then (if (i, j) \<in> board_mines g then cnt + 1 else cnt)
      else cnt)"

definition nearby_mines :: "minesweeper \<Rightarrow> cell \<Rightarrow> int" where
  "nearby_mines g c =
     fold (\<lambda>i cnt. fold (\<lambda>j. nearby_step g c i j) [snd c - 1, snd c, snd c + 1] cnt)
       [fst c - 1, fst c, fst c + 1] 0"

section \<open>Vocabulary of the properties\<close>

text \<open>
  The in-bounds cells that are 8-adjacent to \<open>c\<close> on a board of \<open>h\<close> rows and \<open>w\<close> columns,
  \<open>c\<close> itself excluded.
\<close>

definition adjacent :: "int \<Rightarrow> int \<Rightarrow> cell \<Rightarrow> cell set" where
  "adjacent h w c =
     {(row, col). (row, col) \<noteq> c \<and> \<bar>row - fst c\<bar> \<le> 1 \<and> \<bar>col - snd c\<bar> \<le> 1
        \<and> 0 \<le> row \<and> row < h \<and> 0 \<le> col \<and> col < w}"

text \<open>The nine (row, col) pairs the double loop of \<open>neighbors_to_cell\<close> visits, in its order.\<close>

definition window :: "cell \<Rightarrow> cell list" where
  "window c = List.product [fst c - 1, fst c, fst c + 1] [snd c - 1, snd c, snd c + 1]"

text \<open>The first three conjuncts of the test in \<open>neighbors_to_cell\<close>.\<close>

definition on_board :: "ai \<Rightarrow> cell \<Rightarrow> cell \<Rightarrow> bool" where
  "on_board st c rc \<longleftrightarrow>
     rc \<noteq> c \<and> 0 \<le> fst rc \<and> fst rc < height st \<and> 0 \<le> snd rc \<and> snd rc < width st"

text \<open>
  What every loop of \<open>add_knowledge\<close> after its first two steps leaves alone or only
  enlarges: \<open>moves_made\<close> and the board size stay, \<open>safes\<close> and \<open>mines\<close> grow.
\<close>

definition grows :: "ai \<Rightarrow> ai \<Rightarrow> bool" where
  "grows st st' \<longleftrightarrow>
     moves_made st' = moves_made st \<and> safes st \<subseteq> safes st' \<and> mines st \<subseteq> mines st'
     \<and> height st' = height st \<and> width st' = width st"

text \<open>An engine state for the examples: one move made, one further cell known safe.\<close>

definition demo :: ai where
  "demo = \<lparr>height = 3, width = 3, moves_made = {(0, 0)}, mines = {(2, 2)},
     safes = {(0, 0), (0, 1)}, knowledge = [\<lparr>cells = {(1, 1), (1, 2)}, count = 1\<rparr>]\<rparr>"

text \<open>
  A sentence holds on a board with hazards \<open>G\<close> when its count is the number of its cells
  that are hazards.  An engine state is sound for a game when it has the game's board
  size, its \<open>mines\<close> are hazards, its \<open>safes\<close> are not, and every sentence holds.
\<close>

definition holds :: "cell set \<Rightarrow> sentence \<Rightarrow> bool" where
  "holds G s \<longleftrightarrow> finite (cells s) \<and> count s = int (card (cells s \<inter> G))"

definition sound :: "minesweeper \<Rightarrow> ai \<Rightarrow> bool" where
  "sound g st \<longleftrightarrow>
     height st = board_height g \<and> width st = board_width g
     \<and> mines st \<subseteq> board_mines g \<and> safes st \<inter> board_mines g = {}
     \<and> list_all (holds (board_mines g)) (knowledge st)"

text \<open>
  The calls of the public interface.  \<open>PickSafe\<close> carries the order in which the set
  \<open>safes\<close> is enumerated and \<open>PickFallback\<close> the random number.  A list of calls is honest
  for a game when every \<open>Ingest\<close> keeps the inbound contract: the cell was not probed
  before, is not a hazard, and the count is \<open>nearby_mines\<close> of the cell.
\<close>

datatype call = Ingest cell int | PickSafe "cell list" | PickFallback nat

fun exec :: "ai \<Rightarrow> call \<Rightarrow> ai" where
  "exec st (Ingest c n) = add_knowledge st c n"
| "exec st (PickSafe order) = snd (make_safe_move order st)"
| "exec st (PickFallback r) = snd (make_random_move r st)"

definition run :: "ai \<Rightarrow> call list \<Rightarrow> ai" where
  "run st calls = foldl exec st calls"

fun honest :: "minesweeper \<Rightarrow> cell set \<Rightarrow> call list \<Rightarrow> bool" where
  "honest g probed [] = True"
| "honest g probed (Ingest c n # calls) =
     (c \<notin> probed \<and> c \<notin> board_mines g \<and> n = nearby_mines g c
      \<and> honest g (insert c probed) calls)"
| "honest g probed (PickSafe order # calls) = honest g probed calls"
| "honest g probed (PickFallback r # calls) = honest g probed calls"

section \<open>Example runs\<close>

text \<open>
  Run A: a board of one row and four columns with one hazard at (0, 2); probes (0, 1) and
  (0, 3).  \<open>a2_scan\<close> is the state at the start of the scan of the second call.
\<close>

definition game_a :: minesweeper where
  "game_a = \<lparr>board_height = 1, board_width = 4, board_mines = {(0, 2)}\<rparr>"

definition a1 :: ai where
  "a1 = add_knowledge (init 1 4) (0, 1) 1"

definition a2_scan :: ai where
  "a2_scan = add_sentence (record_move a1 (0, 3)) (0, 3) 1"

text \<open>
  Run B: a 3 by 3 board with hazards at (1, 0) and (1, 2); probes (0, 1), (0, 0), (2, 1).
  \<open>b2_pass\<close> and \<open>b3_pass\<close> are the states at the start of the derivation pass of the second
  and third call.
\<close>

definition game_b :: minesweeper where
  "game_b = \<lparr>board_height = 3, board_width = 3, board_mines = {(1, 0), (1, 2)}\<rparr>"

definition b1 :: ai where
  "b1 = add_knowledge (init 3 3) (0, 1) 2"

definition b2_pass :: ai where
  "b2_pass = extract_facts (add_sentence (record_move b1 (0, 0)) (0, 0) 1)"

definition b2 :: ai where
  "b2 = add_knowledge b1 (0, 0) 1"

definition b3_pass :: ai where
  "b3_pass = extract_facts (add_sentence (record_move b2 (2, 1)) (2, 1) 2)"

definition b3 :: ai where
  "b3 = add_knowledge b2 (2, 1) 2"

text \<open>
  Run C: a board of three rows and five columns with hazards at (0, 4), (2, 0) and (2, 2);
  probes (0, 1), (1, 0), (0, 3), (1, 1).  \<open>c4_pass\<close> is the state at the start of the
  derivation pass of the fourth call.
\<close>

definition game_c :: minesweeper where
  "game_c = \<lparr>board_height = 3, board_width = 5, board_mines = {(0, 4), (2, 0), (2, 2)}\<rparr>"

definition c1 :: ai where
  "c1 = add_knowledge (init 3 5) (0, 1) 0"

definition c2 :: ai where
  "c2 = add_knowledge c1 (1, 0) 1"

definition c3 :: ai where
  "c3 = add_knowledge c2 (0, 3) 1"

definition c4_pass :: ai where
  "c4_pass = extract_facts (add_sentence (record_move c3 (1, 1)) (1, 1) 2)"

definition c4 :: ai where
  "c4 = add_knowledge c3 (1, 1) 2"

section \<open>The marking loops in closed form\<close>

lemma sentence_mark_safe_eq: "sentence_mark_safe s c = s\<lparr>cells := cells s - {c}\<rparr>"
  by (simp add: sentence_mark_safe_def)

lemma fold_mark_safe:
  "fold (\<lambda>c s. mark_safe s c) xs st =
     st\<lparr>safes := safes st \<union> set xs,
        knowledge := map (\<lambda>s. s\<lparr>cells := cells s - set xs\<rparr>) (knowledge st)\<rparr>"
proof (induction xs arbitrary: st)
  case Nil
  then show ?case by (simp add: map_idI)
next
  case (Cons x xs)
  have d: "cells s - {x} - set xs = cells s - insert x (set xs)" for s :: sentence
    by auto
  have "fold (\<lambda>c s. mark_safe s c) (x # xs) st = fold (\<lambda>c s. mark_safe s c) xs (mark_safe st x)"
    by simp
  also have "\<dots> = (mark_safe st x)\<lparr>safes := safes (mark_safe st x) \<union> set xs,
        knowledge := map (\<lambda>s. s\<lparr>cells := cells s - set xs\<rparr>) (knowledge (mark_safe st x))\<rparr>"
    by (rule Cons.IH)
  also have "\<dots> = st\<lparr>safes := safes st \<union> set (x # xs),
        knowledge := map (\<lambda>s. s\<lparr>cells := cells s - set (x # xs)\<rparr>) (knowledge st)\<rparr>"
    by (simp add: mark_safe_def sentence_mark_safe_eq o_def d)
  finally show ?case .
qed

lemma card_Int_insert:
  "card (A \<inter> insert x (set xs)) = (if x \<in> A then 1 else 0) + card ((A - {x}) \<inter> set xs)"
proof (cases "x \<in> A")
  case True
  then have "A \<inter> insert x (set xs) = insert x ((A - {x}) \<inter> set xs)" by auto
  moreover have "x \<notin> (A - {x}) \<inter> set xs" by simp
  moreover have "finite ((A - {x}) \<inter> set xs)" by simp
  ultimately show ?thesis using True by (simp del: Int_insert_right Int_Diff)
next
  case False
  then have "A \<inter> insert x (set xs) = (A - {x}) \<inter> set xs" by auto
  then show ?thesis using False by (simp del: Int_insert_right Int_Diff)
qed

lemma sentence_mark_mine_bulk:
  "(sentence_mark_mine s x)\<lparr>cells := cells (sentence_mark_mine s x) - set xs,
          count := count (sentence_mark_mine s x)
                   - int (card (cells (sentence_mark_mine s x) \<inter> set xs))\<rparr>
   = s\<lparr>cells := cells s - set (x # xs),
       count := count s - int (card (cells s \<inter> set (x # xs)))\<rparr>"
proof (cases "x \<in> cells s")
  case True
  have d: "cells s - {x} - set xs = cells s - insert x (set xs)" by auto
  have c: "int (card (cells s \<inter> insert x (set xs))) = 1 + int (card ((cells s - {x}) \<inter> set xs))"
    using True by (simp only: card_Int_insert) simp
  have "sentence_mark_mine s x = s\<lparr>cells := cells s - {x}, count := count s - 1\<rparr>"
    using True by (simp add: sentence_mark_mine_def)
  then show ?thesis
    by (simp only: list.set c) (simp add: d)
next
  case False
  have d: "cells s - insert x (set xs) = cells s - set xs" using False by auto
  have c: "cells s \<inter> insert x (set xs) = cells s \<inter> set xs" using False by auto
  have "sentence_mark_mine s x = s"
    using False by (simp add: sentence_mark_mine_def)
  then show ?thesis
    by (simp only: list.set c d)
qed

lemma fold_mark_mine:
  "fold (\<lambda>c s. mark_mine s c) xs st =
     st\<lparr>mines := mines st \<union> set xs,
        knowledge := map (\<lambda>s. s\<lparr>cells := cells s - set xs,
                                 count := count s - int (card (cells s \<inter> set xs))\<rparr>)
                       (knowledge st)\<rparr>"
proof (induction xs arbitrary: st)
  case Nil
  then show ?case by (simp add: map_idI)
next
  case (Cons x xs)
  have "fold (\<lambda>c s. mark_mine s c) (x # xs) st = fold (\<lambda>c s. mark_mine s c) xs (mark_mine st x)"
    by simp
  also have "\<dots> = (mark_mine st x)\<lparr>mines := mines (mark_mine st x) \<union> set xs,
        knowledge := map (\<lambda>s. s\<lparr>cells := cells s - set xs,
                                 count := count s - int (card (cells s \<inter> set xs))\<rparr>)
                       (knowledge (mark_mine st x))\<rparr>"
    by (rule Cons.IH)
  also have "\<dots> = st\<lparr>mines := mines st \<union> set (x # xs),
        knowledge := map (\<lambda>s. s\<lparr>cells := cells s - set (x # xs),
                                 count := count s - int (card (cells s \<inter> set (x # xs)))\<rparr>)
                       (knowledge st)\<rparr>"
  proof -
    have "insert x (mines st) \<union> set xs = mines st \<union> set (x # xs)" by simp
    then show ?thesis
      by (simp add: mark_mine_def o_def sentence_mark_mine_bulk del: list.set Int_insert_right)
  qed
  finally show ?case .
qed

text \<open>The order in which a set is enumerated does not matter to either loop.\<close>

lemma fold_mark_safe_order:
  "set xs = set ys \<Longrightarrow>
     fold (\<lambda>c s. mark_safe s c) xs st = fold (\<lambda>c s. mark_safe s c) ys st"
  by (simp add: fold_mark_safe)

lemma fold_mark_mine_order:
  "set xs = set ys \<Longrightarrow>
     fold (\<lambda>c s. mark_mine s c) xs st = fold (\<lambda>c s. mark_mine s c) ys st"
  by (simp add: fold_mark_mine)

lemma for_each_mark_safe:
  "finite S \<Longrightarrow> for_each S mark_safe st =
     st\<lparr>safes := safes st \<union> S,
        knowledge := map (\<lambda>s. s\<lparr>cells := cells s - S\<rparr>) (knowledge st)\<rparr>"
  by (simp add: for_each_def fold_mark_safe)

lemma for_each_mark_mine:
  "finite S \<Longrightarrow> for_each S mark_mine st =
     st\<lparr>mines := mines st \<union> S,
        knowledge := map (\<lambda>s. s\<lparr>cells := cells s - S,
                                 count := count s - int (card (cells s \<inter> S))\<rparr>)
                       (knowledge st)\<rparr>"
  by (simp add: for_each_def fold_mark_mine)

section \<open>Neighbour enumeration\<close>

lemma fold_nested:
  "fold (\<lambda>row acc. fold (\<lambda>col. f row col) cols acc) rows acc
     = fold (\<lambda>(row, col). f row col) (List.product rows cols) acc"
  by (induction rows arbitrary: acc) (simp_all add: fold_map o_def)

lemma distinct_window: "distinct (window c)"
  by (cases c) (simp add: window_def)

lemma set_window: "set (window c) = {fst c - 1, fst c, fst c + 1} \<times> {snd c - 1, snd c, snd c + 1}"
  by (simp only: window_def set_product list.set)

lemma near_iff: "\<bar>x - y\<bar> \<le> 1 \<longleftrightarrow> x \<in> {y - 1, y, y + 1}" for x y :: int
  by (simp only: insert_iff empty_iff) arith

lemma in_window: "rc \<in> set (window c) \<longleftrightarrow> \<bar>fst rc - fst c\<bar> \<le> 1 \<and> \<bar>snd rc - snd c\<bar> \<le> 1"
  by (simp only: set_window near_iff mem_Times_iff)

lemma in_adjacent:
  "rc \<in> adjacent (height st) (width st) c \<longleftrightarrow> rc \<in> set (window c) \<and> on_board st c rc"
  by (cases rc) (simp add: adjacent_def in_window on_board_def, blast)

lemma adjacent_window:
  "adjacent (height st) (width st) c = {rc \<in> set (window c). on_board st c rc}"
  using in_adjacent by blast

lemma finite_adjacent: "finite (adjacent h w c)"
proof -
  have "adjacent h w c \<subseteq> set (window c)"
    by (auto simp: adjacent_def in_window)
  then show ?thesis by (rule finite_subset) simp
qed

lemma neighbor_step_eq:
  "neighbor_step st c row col (A, m) =
     (if on_board st c (row, col) \<and> (row, col) \<notin> mines st \<and> (row, col) \<notin> safes st
      then insert (row, col) A else A,
      if on_board st c (row, col) \<and> (row, col) \<in> mines st then m + 1 else m)"
  by (simp add: neighbor_step_def on_board_def)

lemma fold_neighbor_step:
  "fold (\<lambda>(row, col). neighbor_step st c row col) cands (A, m) =
     (A \<union> {rc \<in> set cands. on_board st c rc \<and> rc \<notin> mines st \<and> rc \<notin> safes st},
      m + int (length (filter (\<lambda>rc. on_board st c rc \<and> rc \<in> mines st) cands)))"
proof (induction cands arbitrary: A m)
  case Nil
  then show ?case by simp
next
  case (Cons rc cands)
  obtain row col where rc: "rc = (row, col)" by (cases rc)
  let ?A = "if on_board st c rc \<and> rc \<notin> mines st \<and> rc \<notin> safes st then insert rc A else A"
  let ?m = "if on_board st c rc \<and> rc \<in> mines st then m + 1 else m"
  have "fold (\<lambda>(row, col). neighbor_step st c row col) (rc # cands) (A, m)
      = fold (\<lambda>(row, col). neighbor_step st c row col) cands (?A, ?m)"
    by (simp only: fold_Cons comp_apply rc prod.case neighbor_step_eq)
  also have "\<dots> = (?A \<union> {rc \<in> set cands. on_board st c rc \<and> rc \<notin> mines st \<and> rc \<notin> safes st},
      ?m + int (length (filter (\<lambda>rc. on_board st c rc \<and> rc \<in> mines st) cands)))"
    by (rule Cons.IH)
  also have "\<dots> = (A \<union> {x \<in> set (rc # cands). on_board st c x \<and> x \<notin> mines st \<and> x \<notin> safes st},
      m + int (length (filter (\<lambda>x. on_board st c x \<and> x \<in> mines st) (rc # cands))))"
    by auto
  finally show ?case .
qed

lemma neighbors_to_cell_window:
  "neighbors_to_cell st c = fold (\<lambda>(row, col). neighbor_step st c row col) (window c) ({}, 0)"
  by (cases c) (simp only: neighbors_to_cell_def window_def fold_nested prod.case fst_conv snd_conv)

lemma neighbors_to_cell_eq:
  "neighbors_to_cell st c =
     (adjacent (height st) (width st) c - mines st - safes st,
      int (card (adjacent (height st) (width st) c \<inter> mines st)))"
proof -
  have "neighbors_to_cell st c =
      ({} \<union> {rc \<in> set (window c). on_board st c rc \<and> rc \<notin> mines st \<and> rc \<notin> safes st},
      0 + int (length (filter (\<lambda>rc. on_board st c rc \<and> rc \<in> mines st) (window c))))"
    by (simp only: neighbors_to_cell_window fold_neighbor_step)
  moreover have "{rc \<in> set (window c). on_board st c rc \<and> rc \<notin> mines st \<and> rc \<notin> safes st}
      = adjacent (height st) (width st) c - mines st - safes st"
    by (auto simp: in_adjacent)
  moreover have "length (filter (\<lambda>rc. on_board st c rc \<and> rc \<in> mines st) (window c))
      = card (adjacent (height st) (width st) c \<inter> mines st)"
  proof -
    have "distinct (filter (\<lambda>rc. on_board st c rc \<and> rc \<in> mines st) (window c))"
      by (rule distinct_filter) (rule distinct_window)
    then have "length (filter (\<lambda>rc. on_board st c rc \<and> rc \<in> mines st) (window c))
        = card (set (filter (\<lambda>rc. on_board st c rc \<and> rc \<in> mines st) (window c)))"
      by (simp only: distinct_card)
    moreover have "set (filter (\<lambda>rc. on_board st c rc \<and> rc \<in> mines st) (window c))
        = adjacent (height st) (width st) c \<inter> mines st"
      by (auto simp: in_adjacent)
    ultimately show ?thesis by simp
  qed
  ultimately show ?thesis by simp
qed

text \<open>
  Claim C9.  For every state, cell and count, the sentence that \<open>add_knowledge\<close> builds from
  \<open>neighbors_to_cell\<close> has as cells exactly the in-bounds 8-adjacent cells of the probed
  cell that are neither in \<open>mines\<close> nor in \<open>safes\<close> (the cell itself excluded), and as count
  the supplied count minus the number of in-bounds 8-adjacent cells that are in \<open>mines\<close>.
  The result does not depend on \<open>moves_made\<close>: a neighbour that is in \<open>moves_made\<close> only is
  still returned.
\<close>

theorem neighbor_constraint:
  "neighbors_to_cell st c =
     (adjacent (height st) (width st) c - mines st - safes st,
      int (card (adjacent (height st) (width st) c \<inter> mines st)))
   \<and> new_sen st c n =
     \<lparr>cells = adjacent (height st) (width st) c - mines st - safes st,
      count = n - int (card (adjacent (height st) (width st) c \<inter> mines st))\<rparr>
   \<and> neighbors_to_cell (st\<lparr>moves_made := M\<rparr>) c = neighbors_to_cell st c"
  by (simp add: new_sen_def neighbors_to_cell_eq)

section \<open>What the loops preserve\<close>

lemma grows_refl: "grows st st"
  by (simp add: grows_def)

lemma grows_trans: "grows a b \<Longrightarrow> grows b c \<Longrightarrow> grows a c"
  by (auto simp: grows_def)

lemma grows_mark_safe: "grows st (mark_safe st c)"
  by (auto simp: grows_def mark_safe_def)

lemma grows_mark_mine: "grows st (mark_mine st c)"
  by (auto simp: grows_def mark_mine_def)

lemma grows_scan: "grows st (scan_sentence i st)"
  by (auto simp: grows_def scan_sentence_def for_each_def fold_mark_safe fold_mark_mine Let_def)

lemma grows_extract_from: "grows st (extract_from i st)"
proof (induction i st rule: extract_from.induct)
  case (1 i st)
  show ?case
  proof (cases "i < length (knowledge st)")
    case True
    then have "extract_from i st = extract_from (Suc i) (scan_sentence i st)"
      by (simp add: extract_from.simps [of i st])
    with 1 [OF True] grows_scan [of st i] show ?thesis
      by (auto intro: grows_trans)
  next
    case False
    then show ?thesis by (simp add: extract_from.simps [of i st] grows_refl)
  qed
qed

lemma grows_subtract: "grows st (subtract small big d st)"
  by (auto simp: subtract_def Let_def grows_def mark_safe_def mark_mine_def)

lemma grows_derive_pair: "grows st (derive_pair sen1 sen2 st)"
  by (simp add: derive_pair_def grows_subtract grows_refl)

lemma grows_fold_derive_pair: "grows st (fold (derive_pair sen1) rest st)"
proof (induction rest arbitrary: st)
  case Nil
  show ?case by (simp add: grows_refl)
next
  case (Cons sen2 rest)
  from grows_derive_pair [of st sen1 sen2] Cons [of "derive_pair sen1 sen2 st"]
  show ?case by (auto intro: grows_trans)
qed

lemma grows_derive_from: "grows st (derive_from i ks st)"
proof (induction i ks st rule: derive_from.induct)
  case (1 i ks st)
  show ?case
  proof (cases "i < length ks")
    case True
    let ?rest = "remove1 (ks ! i) ks"
    have "derive_from i ks st = derive_from (Suc i) ?rest (fold (derive_pair (ks ! i)) ?rest st)"
      using True by (simp add: derive_from.simps [of i ks st] Let_def)
    with 1 [OF True refl refl] grows_fold_derive_pair [of st "ks ! i" ?rest] show ?thesis
      by (auto intro: grows_trans)
  next
    case False
    then show ?thesis by (simp add: derive_from.simps [of i ks st] grows_refl)
  qed
qed

lemma grows_add_knowledge: "grows (record_move st c) (add_knowledge st c n)"
proof -
  have "grows (record_move st c) (add_sentence (record_move st c) c n)"
    by (simp add: add_sentence_def grows_def)
  moreover have "grows (add_sentence (record_move st c) c n)
      (extract_facts (add_sentence (record_move st c) c n))"
    by (simp add: extract_facts_def grows_extract_from)
  moreover have "grows (extract_facts (add_sentence (record_move st c) c n)) (add_knowledge st c n)"
    by (simp add: add_knowledge_def derive_def grows_derive_from)
  ultimately show ?thesis by (blast intro: grows_trans)
qed

lemma moves_made_add_knowledge:
  "moves_made (add_knowledge st c n) = insert c (moves_made st)"
  using grows_add_knowledge [of st c n] by (simp add: grows_def record_move_def)

lemma safes_add_knowledge:
  "insert c (safes st) \<subseteq> safes (add_knowledge st c n)"
  using grows_add_knowledge [of st c n] by (simp add: grows_def record_move_def)

section \<open>Small boards and states, evaluated\<close>





section \<open>Move selection\<close>

lemma safe_move_loop_none:
  "set order \<subseteq> moves_made st \<Longrightarrow> safe_move_loop order st = (None, st)"
  by (induction order) auto

lemma safe_move_loop_some:
  "\<not> set order \<subseteq> moves_made st \<Longrightarrow>
     \<exists>c. c \<in> set order \<and> c \<notin> moves_made st
        \<and> safe_move_loop order st = (Some c, st\<lparr>moves_made := insert c (moves_made st)\<rparr>)"
  by (induction order) auto

text \<open>
  Claim C10.  Whatever the order in which the set \<open>safes\<close> is enumerated, \<open>make_safe_move\<close>
  returns a cell of \<open>safes - moves_made\<close> when that set is not empty and \<open>None\<close> when it is
  empty.  The state it leaves is the old state with the returned cell added to
  \<open>moves_made\<close>, so \<open>mines\<close>, \<open>safes\<close> and every sentence of \<open>knowledge\<close> are unchanged.
\<close>

theorem make_safe_move_frame:
  assumes "set order = safes st"
  shows "(safes st - moves_made st \<noteq> {} \<longrightarrow>
           (\<exists>c. c \<in> safes st - moves_made st
              \<and> make_safe_move order st = (Some c, st\<lparr>moves_made := insert c (moves_made st)\<rparr>)))
       \<and> (safes st - moves_made st = {} \<longrightarrow> make_safe_move order st = (None, st))"
proof (intro conjI impI)
  assume "safes st - moves_made st \<noteq> {}"
  then have "\<not> set order \<subseteq> moves_made st" using assms by auto
  from safe_move_loop_some [OF this] show "\<exists>c. c \<in> safes st - moves_made st
      \<and> make_safe_move order st = (Some c, st\<lparr>moves_made := insert c (moves_made st)\<rparr>)"
    using assms by (auto simp: make_safe_move_def)
next
  assume "safes st - moves_made st = {}"
  then have "set order \<subseteq> moves_made st" using assms by auto
  then show "make_safe_move order st = (None, st)"
    by (simp add: make_safe_move_def safe_move_loop_none)
qed

theorem make_safe_move_frame_witness:
  "set [(0, 0), (0, 1)] = safes demo \<and> safes demo - moves_made demo \<noteq> {}
   \<and> make_safe_move [(0, 0), (0, 1)] demo
       = (Some (0, 1), demo\<lparr>moves_made := insert (0, 1) (moves_made demo)\<rparr>)"
  using make_safe_move_frame [of "[(0, 0), (0, 1)]" demo]
  by (simp add: demo_def make_safe_move_def)




section \<open>Soundness of the deductions on an honest board\<close>

lemma fold_nearby_step:
  "fold (\<lambda>(i, j). nearby_step g c i j) cands m =
     m + int (length (filter (\<lambda>rc. rc \<noteq> c \<and> 0 \<le> fst rc \<and> fst rc < board_height g
            \<and> 0 \<le> snd rc \<and> snd rc < board_width g \<and> rc \<in> board_mines g) cands))"
proof (induction cands arbitrary: m)
  case Nil
  show ?case by simp
next
  case (Cons rc cands)
  obtain i j where rc: "rc = (i, j)" by (cases rc)
  have "fold (\<lambda>(i, j). nearby_step g c i j) (rc # cands) m
      = fold (\<lambda>(i, j). nearby_step g c i j) cands (nearby_step g c i j m)"
    by (simp add: rc)
  also have "\<dots> = nearby_step g c i j m + int (length (filter (\<lambda>rc. rc \<noteq> c \<and> 0 \<le> fst rc \<and> fst rc < board_height g
            \<and> 0 \<le> snd rc \<and> snd rc < board_width g \<and> rc \<in> board_mines g) cands))"
    by (rule Cons.IH)
  also have "\<dots> = m + int (length (filter (\<lambda>rc. rc \<noteq> c \<and> 0 \<le> fst rc \<and> fst rc < board_height g
            \<and> 0 \<le> snd rc \<and> snd rc < board_width g \<and> rc \<in> board_mines g) (rc # cands)))"
    by (simp add: rc nearby_step_def)
  finally show ?case .
qed

lemma nearby_mines_eq:
  "nearby_mines g c = int (card (adjacent (board_height g) (board_width g) c \<inter> board_mines g))"
proof -
  let ?P = "\<lambda>rc. rc \<noteq> c \<and> 0 \<le> fst rc \<and> fst rc < board_height g
            \<and> 0 \<le> snd rc \<and> snd rc < board_width g \<and> rc \<in> board_mines g"
  have "nearby_mines g c = fold (\<lambda>(i, j). nearby_step g c i j) (window c) 0"
    by (simp only: nearby_mines_def window_def fold_nested)
  then have "nearby_mines g c = int (length (filter ?P (window c)))"
    by (simp add: fold_nearby_step)
  moreover have "distinct (filter ?P (window c))"
    by (rule distinct_filter) (rule distinct_window)
  then have "length (filter ?P (window c)) = card (set (filter ?P (window c)))"
    by (simp only: distinct_card)
  moreover have "set (filter ?P (window c))
      = adjacent (board_height g) (board_width g) c \<inter> board_mines g"
    by (auto simp: adjacent_def in_window)
  ultimately show ?thesis by simp
qed

lemma holds_remove_safe:
  assumes "holds G s" and "S \<inter> G = {}"
  shows "holds G (s\<lparr>cells := cells s - S\<rparr>)"
proof -
  have "(cells s - S) \<inter> G = cells s \<inter> G" using assms(2) by auto
  then show ?thesis using assms(1) by (simp add: holds_def)
qed

lemma holds_remove_mines:
  assumes "holds G s" and "S \<subseteq> G"
  shows "holds G (s\<lparr>cells := cells s - S, count := count s - int (card (cells s \<inter> S))\<rparr>)"
proof -
  have fin: "finite (cells s)" using assms(1) by (simp add: holds_def)
  have eq: "(cells s - S) \<inter> G = (cells s \<inter> G) - (cells s \<inter> S)" by auto
  have sub: "cells s \<inter> S \<subseteq> cells s \<inter> G" using assms(2) by auto
  have "card ((cells s \<inter> G) - (cells s \<inter> S)) = card (cells s \<inter> G) - card (cells s \<inter> S)"
    using fin sub by (intro card_Diff_subset) auto
  moreover have "card (cells s \<inter> S) \<le> card (cells s \<inter> G)"
    using fin sub by (intro card_mono) auto
  ultimately have "int (card ((cells s - S) \<inter> G)) = int (card (cells s \<inter> G)) - int (card (cells s \<inter> S))"
    by (simp only: eq)
  then show ?thesis using assms(1) fin by (simp add: holds_def)
qed

lemma sound_mark_safes:
  assumes "sound g st" and "S \<inter> board_mines g = {}"
  shows "sound g (st\<lparr>safes := safes st \<union> S,
        knowledge := map (\<lambda>s. s\<lparr>cells := cells s - S\<rparr>) (knowledge st)\<rparr>)"
  using assms by (auto simp: sound_def list_all_iff holds_remove_safe)

lemma sound_mark_mines:
  assumes "sound g st" and "S \<subseteq> board_mines g"
  shows "sound g (st\<lparr>mines := mines st \<union> S,
        knowledge := map (\<lambda>s. s\<lparr>cells := cells s - S,
                                 count := count s - int (card (cells s \<inter> S))\<rparr>)
                       (knowledge st)\<rparr>)"
  using assms by (auto simp: sound_def list_all_iff holds_remove_mines)

lemma mark_safe_single:
  "mark_safe st c = st\<lparr>safes := safes st \<union> {c},
        knowledge := map (\<lambda>s. s\<lparr>cells := cells s - {c}\<rparr>) (knowledge st)\<rparr>"
  using fold_mark_safe [of "[c]" st] by simp

lemma mark_mine_single:
  "mark_mine st c = st\<lparr>mines := mines st \<union> {c},
        knowledge := map (\<lambda>s. s\<lparr>cells := cells s - {c},
                                 count := count s - int (card (cells s \<inter> {c}))\<rparr>)
                       (knowledge st)\<rparr>"
  using fold_mark_mine [of "[c]" st] by simp

lemma sound_mark_safe: "sound g st \<Longrightarrow> c \<notin> board_mines g \<Longrightarrow> sound g (mark_safe st c)"
  by (simp only: mark_safe_single) (rule sound_mark_safes, simp_all)

lemma sound_mark_mine: "sound g st \<Longrightarrow> c \<in> board_mines g \<Longrightarrow> sound g (mark_mine st c)"
  by (simp only: mark_mine_single) (rule sound_mark_mines, simp_all)

lemma holds_known_safes: "holds G s \<Longrightarrow> known_safes s \<inter> G = {}"
  by (auto simp: holds_def known_safes_def)

lemma holds_known_mines: "holds G s \<Longrightarrow> known_mines s \<subseteq> G"
proof -
  assume h: "holds G s"
  show ?thesis
  proof (cases "int (card (cells s)) = count s")
    case True
    with h have "card (cells s \<inter> G) = card (cells s)" and "finite (cells s)"
      by (simp_all add: holds_def)
    then have "cells s \<inter> G = cells s"
      by (intro card_subset_eq) auto
    then show ?thesis using True by (auto simp: known_mines_def)
  next
    case False
    then show ?thesis by (simp add: known_mines_def)
  qed
qed

lemma sound_holds_nth:
  "sound g st \<Longrightarrow> i < length (knowledge st) \<Longrightarrow> holds (board_mines g) (knowledge st ! i)"
  by (simp add: sound_def list_all_length)

lemma sound_scan:
  assumes "sound g st" and "i < length (knowledge st)"
  shows "sound g (scan_sentence i st)"
proof -
  let ?sen = "knowledge st ! i"
  have h: "holds (board_mines g) ?sen" using assms by (rule sound_holds_nth)
  then have fin: "finite (cells ?sen)" by (simp add: holds_def)
  have fs: "finite (known_safes ?sen)" and fm: "finite (known_mines ?sen)"
    using fin by (simp_all add: known_safes_def known_mines_def)
  have s1: "sound g (for_each (known_safes ?sen) mark_safe st)"
    using assms(1) holds_known_safes [OF h]
    by (simp only: for_each_mark_safe [OF fs]) (rule sound_mark_safes)
  have "sound g (for_each (known_mines ?sen) mark_mine (for_each (known_safes ?sen) mark_safe st))"
    using s1 holds_known_mines [OF h]
    by (simp only: for_each_mark_mine [OF fm]) (rule sound_mark_mines)
  then show ?thesis by (simp add: scan_sentence_def Let_def)
qed

lemma sound_extract_from: "sound g st \<Longrightarrow> sound g (extract_from i st)"
proof (induction i st rule: extract_from.induct)
  case (1 i st)
  show ?case
  proof (cases "i < length (knowledge st)")
    case True
    have "sound g (scan_sentence i st)" using "1.prems" True by (rule sound_scan)
    with "1.IH" [OF True] have "sound g (extract_from (Suc i) (scan_sentence i st))" .
    then show ?thesis using True by (simp add: extract_from.simps [of i st])
  next
    case False
    then show ?thesis using "1.prems" by (simp add: extract_from.simps [of i st])
  qed
qed

lemma holds_difference:
  assumes "holds G big" and "holds G small" and "cells small \<subseteq> cells big"
  shows "holds G \<lparr>cells = cells big - cells small, count = count big - count small\<rparr>"
proof -
  have fin: "finite (cells big)" using assms(1) by (simp add: holds_def)
  have eq: "(cells big - cells small) \<inter> G = (cells big \<inter> G) - (cells small \<inter> G)" by auto
  have sub: "cells small \<inter> G \<subseteq> cells big \<inter> G" using assms(3) by auto
  have "card ((cells big \<inter> G) - (cells small \<inter> G)) = card (cells big \<inter> G) - card (cells small \<inter> G)"
    using fin sub by (intro card_Diff_subset) (auto intro: finite_subset)
  moreover have "card (cells small \<inter> G) \<le> card (cells big \<inter> G)"
    using fin sub by (intro card_mono) auto
  ultimately have "int (card ((cells big - cells small) \<inter> G))
      = int (card (cells big \<inter> G)) - int (card (cells small \<inter> G))"
    by (simp only: eq)
  then show ?thesis using assms(1,2) fin by (simp add: holds_def)
qed

lemma sound_subtract:
  assumes "sound g st" and "holds (board_mines g) big" and "holds (board_mines g) small"
  shows "sound g (subtract (cells small) (cells big) (count big - count small) st)"
proof (cases "cells small \<subseteq> cells big")
  case False
  then show ?thesis using assms(1) by (simp add: subtract_def)
next
  case True
  let ?d = "cells big - cells small"
  have hd: "holds (board_mines g) \<lparr>cells = ?d, count = count big - count small\<rparr>"
    using assms(2,3) True by (rule holds_difference)
  show ?thesis
  proof (cases "card ?d = 1")
    case False
    have "sound g (st\<lparr>knowledge := knowledge st @ [\<lparr>cells = ?d, count = count big - count small\<rparr>]\<rparr>)"
      using assms(1) hd by (simp add: sound_def)
    then show ?thesis using True False by (simp add: subtract_def Let_def)
  next
    case one: True
    then obtain x where x: "?d = {x}" by (auto simp: card_1_singleton_iff)
    have cnt: "count big - count small = int (card ({x} \<inter> board_mines g))"
      using hd by (simp add: holds_def x)
    have "sound g (mark_safe st x)" if "count big - count small = 0"
    proof -
      from that cnt have "x \<notin> board_mines g" by (cases "x \<in> board_mines g") simp_all
      with assms(1) show ?thesis by (rule sound_mark_safe)
    qed
    moreover have "sound g (mark_mine st x)" if "count big - count small = 1"
    proof -
      from that cnt have "x \<in> board_mines g" by (cases "x \<in> board_mines g") simp_all
      with assms(1) show ?thesis by (rule sound_mark_mine)
    qed
    ultimately show ?thesis
      using True one assms(1) by (simp add: subtract_def Let_def x)
  qed
qed

lemma sound_derive_pair:
  assumes "sound g st" and "holds (board_mines g) sen1" and "holds (board_mines g) sen2"
  shows "sound g (derive_pair sen1 sen2 st)"
  using assms sound_subtract [of g st sen1 sen2] sound_subtract [of g st sen2 sen1]
  by (simp add: derive_pair_def)

lemma sound_fold_derive_pair:
  assumes "holds (board_mines g) sen1" and "list_all (holds (board_mines g)) rest"
  shows "sound g st \<Longrightarrow> sound g (fold (derive_pair sen1) rest st)"
  using assms(2)
proof (induction rest arbitrary: st)
  case Nil
  then show ?case by simp
next
  case (Cons sen2 rest)
  have "sound g (derive_pair sen1 sen2 st)"
    using Cons.prems assms(1) by (intro sound_derive_pair) simp_all
  then show ?case using Cons by simp
qed

lemma list_all_remove1: "list_all P xs \<Longrightarrow> list_all P (remove1 x xs)"
  by (auto simp: list_all_iff dest: notin_set_remove1)

lemma sound_derive_from:
  "sound g st \<Longrightarrow> list_all (holds (board_mines g)) ks \<Longrightarrow> sound g (derive_from i ks st)"
proof (induction i ks st rule: derive_from.induct)
  case (1 i ks st)
  show ?case
  proof (cases "i < length ks")
    case True
    let ?sen1 = "ks ! i"
    let ?rest = "remove1 ?sen1 ks"
    have h1: "holds (board_mines g) ?sen1"
      using "1.prems"(2) True by (simp add: list_all_length)
    have hr: "list_all (holds (board_mines g)) ?rest"
      using "1.prems"(2) by (rule list_all_remove1)
    have "sound g (fold (derive_pair ?sen1) ?rest st)"
      using h1 hr "1.prems"(1) by (rule sound_fold_derive_pair)
    with "1.IH" [OF True refl refl] hr
    have "sound g (derive_from (Suc i) ?rest (fold (derive_pair ?sen1) ?rest st))" by simp
    then show ?thesis using True by (simp add: derive_from.simps [of i ks st] Let_def)
  next
    case False
    then show ?thesis using "1.prems" by (simp add: derive_from.simps [of i ks st])
  qed
qed

lemma sound_record_move: "sound g st \<Longrightarrow> c \<notin> board_mines g \<Longrightarrow> sound g (record_move st c)"
  by (simp add: sound_def record_move_def)

lemma holds_new_sen:
  assumes "sound g st"
  shows "holds (board_mines g) (new_sen st c (nearby_mines g c))"
proof -
  let ?A = "adjacent (height st) (width st) c"
  let ?G = "board_mines g"
  have hw: "height st = board_height g" "width st = board_width g"
    and m: "mines st \<subseteq> ?G" and s: "safes st \<inter> ?G = {}"
    using assms by (simp_all add: sound_def)
  have fin: "finite ?A" by (rule finite_adjacent)
  have eq: "(?A - mines st - safes st) \<inter> ?G = (?A \<inter> ?G) - (?A \<inter> mines st)"
    using s by auto
  have sub: "?A \<inter> mines st \<subseteq> ?A \<inter> ?G" using m by auto
  have "card ((?A \<inter> ?G) - (?A \<inter> mines st)) = card (?A \<inter> ?G) - card (?A \<inter> mines st)"
    using fin sub by (intro card_Diff_subset) auto
  moreover have "card (?A \<inter> mines st) \<le> card (?A \<inter> ?G)"
    using fin sub by (intro card_mono) auto
  ultimately have "int (card ((?A - mines st - safes st) \<inter> ?G))
      = int (card (?A \<inter> ?G)) - int (card (?A \<inter> mines st))"
    by (simp only: eq)
  then show ?thesis
    using fin by (simp add: holds_def new_sen_def neighbors_to_cell_eq nearby_mines_eq hw)
qed

lemma sound_add_sentence:
  "sound g st \<Longrightarrow> sound g (add_sentence st c (nearby_mines g c))"
  using holds_new_sen [of g st c] by (simp add: add_sentence_def sound_def)

lemma sound_add_knowledge:
  assumes "sound g st" and "c \<notin> board_mines g"
  shows "sound g (add_knowledge st c (nearby_mines g c))"
proof -
  let ?st3 = "add_sentence (record_move st c) c (nearby_mines g c)"
  have "sound g ?st3" using assms by (intro sound_add_sentence sound_record_move)
  then have e: "sound g (extract_facts ?st3)"
    by (simp add: extract_facts_def sound_extract_from)
  then have "list_all (holds (board_mines g)) (knowledge (extract_facts ?st3))"
    by (simp add: sound_def)
  with e have "sound g (derive (extract_facts ?st3))"
    by (simp add: derive_def sound_derive_from)
  then show ?thesis by (simp add: add_knowledge_def)
qed

lemma sound_moves_made [simp]: "sound g (st\<lparr>moves_made := M\<rparr>) = sound g st"
  by (simp add: sound_def)

lemma sound_safe_move_loop: "sound g st \<Longrightarrow> sound g (snd (safe_move_loop order st))"
  by (induction order) simp_all

lemma sound_exec_pick:
  "sound g st \<Longrightarrow> sound g (snd (make_safe_move order st))"
  "sound g st \<Longrightarrow> sound g (snd (make_random_move r st))"
  by (simp_all add: make_safe_move_def sound_safe_move_loop make_random_move_def Let_def)

lemma sound_run: "sound g st \<Longrightarrow> honest g probed calls \<Longrightarrow> sound g (run st calls)"
proof (induction calls arbitrary: st probed)
  case Nil
  then show ?case by (simp add: run_def)
next
  case (Cons a calls)
  show ?case
  proof (cases a)
    case (Ingest c n)
    with Cons.prems have "sound g (add_knowledge st c n)" and "honest g (insert c probed) calls"
      by (simp_all add: sound_add_knowledge)
    then have "sound g (run (add_knowledge st c n) calls)" by (rule Cons.IH)
    then show ?thesis by (simp add: run_def Ingest)
  next
    case (PickSafe order)
    with Cons.prems have "sound g (snd (make_safe_move order st))" and "honest g probed calls"
      by (simp_all add: sound_exec_pick)
    then have "sound g (run (snd (make_safe_move order st)) calls)" by (rule Cons.IH)
    then show ?thesis by (simp add: run_def PickSafe)
  next
    case (PickFallback r)
    with Cons.prems have "sound g (snd (make_random_move r st))" and "honest g probed calls"
      by (simp_all add: sound_exec_pick)
    then have "sound g (run (snd (make_random_move r st)) calls)" by (rule Cons.IH)
    then show ?thesis by (simp add: run_def PickFallback)
  qed
qed

lemma honest_take: "honest g probed calls \<Longrightarrow> honest g probed (take k calls)"
proof (induction calls arbitrary: probed k)
  case Nil
  then show ?case by simp
next
  case (Cons a calls)
  show ?case
  proof (cases k)
    case 0
    then show ?thesis by simp
  next
    case (Suc k')
    with Cons show ?thesis by (cases a) simp_all
  qed
qed

lemma sound_init: "sound g (init (board_height g) (board_width g))"
  by (simp add: sound_def init_def)

lemma sound_disjoint: "sound g st \<Longrightarrow> mines st \<inter> safes st = {}"
  by (auto simp: sound_def)

section \<open>The example runs, evaluated\<close>

lemma adjacent_filter:
  "adjacent h w c =
     set (filter (\<lambda>rc. rc \<noteq> c \<and> 0 \<le> fst rc \<and> fst rc < h \<and> 0 \<le> snd rc \<and> snd rc < w) (window c))"
  by (auto simp: adjacent_def in_window)

lemma new_sen_eq:
  "new_sen st c n =
     \<lparr>cells = adjacent (height st) (width st) c - mines st - safes st,
      count = n - int (card (adjacent (height st) (width st) c \<inter> mines st))\<rparr>"
  by (simp add: new_sen_def neighbors_to_cell_eq)

lemma extract_from_step:
  "i < length (knowledge st) \<Longrightarrow> extract_from i st = extract_from (Suc i) (scan_sentence i st)"
  by (simp add: extract_from.simps [of i st])

lemma extract_from_done:
  "\<not> i < length (knowledge st) \<Longrightarrow> extract_from i st = st"
  by (simp add: extract_from.simps [of i st])

lemma derive_from_step:
  "i < length ks \<Longrightarrow> derive_from i ks st =
     derive_from (Suc i) (remove1 (ks ! i) ks) (fold (derive_pair (ks ! i)) (remove1 (ks ! i) ks) st)"
  by (simp add: derive_from.simps [of i ks st] Let_def)

lemma derive_from_done:
  "\<not> i < length ks \<Longrightarrow> derive_from i ks st = st"
  by (simp add: derive_from.simps [of i ks st])

lemma insert_eq_insert:
  "insert a A = insert b B \<longleftrightarrow> insert a A \<subseteq> insert b B \<and> insert b B \<subseteq> insert a A"
  by auto

lemmas step3_ev = record_move_def add_sentence_def new_sen_eq insert_Diff_if insert_eq_insert

lemmas step4_ev = extract_facts_def extract_from_step extract_from_done
  scan_sentence_def known_safes_def known_mines_def for_each_mark_safe
  for_each_mark_mine Let_def insert_Diff_if insert_eq_insert

lemmas step5_ev = derive_def derive_from_step derive_from_done derive_pair_def subtract_def
  mark_safe_def mark_mine_def sentence_mark_safe_def sentence_mark_mine_def
  Let_def insert_Diff_if insert_eq_insert

lemma adj_3_3_01: "adjacent 3 3 (0, 1) = {(0, 0), (0, 2), (1, 0), (1, 1), (1, 2)}"
  by (simp add: adjacent_filter window_def)

lemma adj_3_3_00: "adjacent 3 3 (0, 0) = {(0, 1), (1, 0), (1, 1)}"
  by (simp add: adjacent_filter window_def)

lemma adj_3_3_21: "adjacent 3 3 (2, 1) = {(1, 0), (1, 1), (1, 2), (2, 0), (2, 2)}"
  by (simp add: adjacent_filter window_def)

lemma adj_3_5_01: "adjacent 3 5 (0, 1) = {(0, 0), (0, 2), (1, 0), (1, 1), (1, 2)}"
  by (simp add: adjacent_filter window_def)

lemma adj_3_5_10: "adjacent 3 5 (1, 0) = {(0, 0), (0, 1), (1, 1), (2, 0), (2, 1)}"
  by (simp add: adjacent_filter window_def)

lemma adj_3_5_03: "adjacent 3 5 (0, 3) = {(0, 2), (0, 4), (1, 2), (1, 3), (1, 4)}"
  by (simp add: adjacent_filter window_def)

lemma adj_3_5_11:
  "adjacent 3 5 (1, 1) = {(0, 0), (0, 1), (0, 2), (1, 0), (1, 2), (2, 0), (2, 1), (2, 2)}"
  by (simp add: adjacent_filter window_def)

lemma b1_step4: "extract_facts (add_sentence (record_move (init 3 3) (0, 1)) (0, 1) 2) =
  \<lparr>height = 3, width = 3, moves_made = {(0, 1)}, mines = {}, safes = {(0, 1)},
   knowledge = [\<lparr>cells = {(0, 0), (0, 2), (1, 0), (1, 1), (1, 2)}, count = 2\<rparr>]\<rparr>"
proof -
  have "add_sentence (record_move (init 3 3) (0, 1)) (0, 1) 2 =
    \<lparr>height = 3, width = 3, moves_made = {(0, 1)}, mines = {}, safes = {(0, 1)},
     knowledge = [\<lparr>cells = {(0, 0), (0, 2), (1, 0), (1, 1), (1, 2)}, count = 2\<rparr>]\<rparr>"
    by (simp add: init_def step3_ev adj_3_3_01)
  then show ?thesis by (simp add: step4_ev)
qed

lemma b1_eq: "b1 =
  \<lparr>height = 3, width = 3, moves_made = {(0, 1)}, mines = {}, safes = {(0, 1)},
   knowledge = [\<lparr>cells = {(0, 0), (0, 2), (1, 0), (1, 1), (1, 2)}, count = 2\<rparr>]\<rparr>"
  by (simp add: b1_def add_knowledge_def b1_step4) (simp add: step5_ev)

lemma b2_record: "record_move b1 (0, 0) =
  \<lparr>height = 3, width = 3, moves_made = {(0, 0), (0, 1)}, mines = {}, safes = {(0, 0), (0, 1)},
   knowledge = [\<lparr>cells = {(0, 0), (0, 2), (1, 0), (1, 1), (1, 2)}, count = 2\<rparr>]\<rparr>"
  by (simp add: b1_eq record_move_def)

lemma b2_pass_eq: "b2_pass =
  \<lparr>height = 3, width = 3, moves_made = {(0, 0), (0, 1)}, mines = {}, safes = {(0, 0), (0, 1)},
   knowledge = [\<lparr>cells = {(0, 0), (0, 2), (1, 0), (1, 1), (1, 2)}, count = 2\<rparr>,
                \<lparr>cells = {(1, 0), (1, 1)}, count = 1\<rparr>]\<rparr>"
proof -
  have "add_sentence (record_move b1 (0, 0)) (0, 0) 1 =
    \<lparr>height = 3, width = 3, moves_made = {(0, 0), (0, 1)}, mines = {}, safes = {(0, 0), (0, 1)},
     knowledge = [\<lparr>cells = {(0, 0), (0, 2), (1, 0), (1, 1), (1, 2)}, count = 2\<rparr>,
                  \<lparr>cells = {(1, 0), (1, 1)}, count = 1\<rparr>]\<rparr>"
    by (simp add: b2_record add_sentence_def new_sen_eq adj_3_3_00 insert_Diff_if insert_eq_insert)
  then show ?thesis by (simp add: b2_pass_def step4_ev)
qed

lemma b2_eq: "b2 =
  \<lparr>height = 3, width = 3, moves_made = {(0, 0), (0, 1)}, mines = {}, safes = {(0, 0), (0, 1)},
   knowledge = [\<lparr>cells = {(0, 0), (0, 2), (1, 0), (1, 1), (1, 2)}, count = 2\<rparr>,
                \<lparr>cells = {(1, 0), (1, 1)}, count = 1\<rparr>,
                \<lparr>cells = {(0, 0), (0, 2), (1, 2)}, count = 1\<rparr>]\<rparr>"
proof -
  have "b2 = derive b2_pass" by (simp add: b2_def b2_pass_def add_knowledge_def)
  then show ?thesis by (simp add: b2_pass_eq step5_ev)
qed

lemma b3_pass_eq: "b3_pass =
  \<lparr>height = 3, width = 3, moves_made = {(0, 0), (0, 1), (2, 1)}, mines = {},
   safes = {(0, 0), (0, 1), (2, 1)},
   knowledge = [\<lparr>cells = {(0, 0), (0, 2), (1, 0), (1, 1), (1, 2)}, count = 2\<rparr>,
                \<lparr>cells = {(1, 0), (1, 1)}, count = 1\<rparr>,
                \<lparr>cells = {(0, 0), (0, 2), (1, 2)}, count = 1\<rparr>,
                \<lparr>cells = {(1, 0), (1, 1), (1, 2), (2, 0), (2, 2)}, count = 2\<rparr>]\<rparr>"
proof -
  have "add_sentence (record_move b2 (2, 1)) (2, 1) 2 =
    \<lparr>height = 3, width = 3, moves_made = {(0, 0), (0, 1), (2, 1)}, mines = {},
     safes = {(0, 0), (0, 1), (2, 1)},
     knowledge = [\<lparr>cells = {(0, 0), (0, 2), (1, 0), (1, 1), (1, 2)}, count = 2\<rparr>,
                  \<lparr>cells = {(1, 0), (1, 1)}, count = 1\<rparr>,
                  \<lparr>cells = {(0, 0), (0, 2), (1, 2)}, count = 1\<rparr>,
                  \<lparr>cells = {(1, 0), (1, 1), (1, 2), (2, 0), (2, 2)}, count = 2\<rparr>]\<rparr>"
    by (simp add: b2_eq step3_ev adj_3_3_21)
  then show ?thesis by (simp add: b3_pass_def step4_ev)
qed

lemma b3_eq: "b3 =
  \<lparr>height = 3, width = 3, moves_made = {(0, 0), (0, 1), (2, 1)}, mines = {},
   safes = {(0, 0), (0, 1), (2, 1)},
   knowledge = [\<lparr>cells = {(0, 0), (0, 2), (1, 0), (1, 1), (1, 2)}, count = 2\<rparr>,
                \<lparr>cells = {(1, 0), (1, 1)}, count = 1\<rparr>,
                \<lparr>cells = {(0, 0), (0, 2), (1, 2)}, count = 1\<rparr>,
                \<lparr>cells = {(1, 0), (1, 1), (1, 2), (2, 0), (2, 2)}, count = 2\<rparr>,
                \<lparr>cells = {(0, 0), (0, 2), (1, 2)}, count = 1\<rparr>,
                \<lparr>cells = {(1, 0), (1, 1)}, count = 1\<rparr>]\<rparr>"
proof -
  have "b3 = derive b3_pass" by (simp add: b3_def b3_pass_def add_knowledge_def)
  then show ?thesis by (simp add: b3_pass_eq step5_ev)
qed

lemma c1_eq: "c1 =
  \<lparr>height = 3, width = 5, moves_made = {(0, 1)}, mines = {},
   safes = {(0, 0), (0, 1), (0, 2), (1, 0), (1, 1), (1, 2)},
   knowledge = [\<lparr>cells = {}, count = 0\<rparr>]\<rparr>"
proof -
  have "add_sentence (record_move (init 3 5) (0, 1)) (0, 1) 0 =
    \<lparr>height = 3, width = 5, moves_made = {(0, 1)}, mines = {}, safes = {(0, 1)},
     knowledge = [\<lparr>cells = {(0, 0), (0, 2), (1, 0), (1, 1), (1, 2)}, count = 0\<rparr>]\<rparr>"
    by (simp add: init_def step3_ev adj_3_5_01)
  then have "extract_facts (add_sentence (record_move (init 3 5) (0, 1)) (0, 1) 0) =
    \<lparr>height = 3, width = 5, moves_made = {(0, 1)}, mines = {},
     safes = {(0, 0), (0, 1), (0, 2), (1, 0), (1, 1), (1, 2)},
     knowledge = [\<lparr>cells = {}, count = 0\<rparr>]\<rparr>"
    by (simp add: step4_ev)
  then show ?thesis by (simp add: c1_def add_knowledge_def) (simp add: step5_ev)
qed

lemma c2_eq: "c2 =
  \<lparr>height = 3, width = 5, moves_made = {(0, 1), (1, 0)}, mines = {},
   safes = {(0, 0), (0, 1), (0, 2), (1, 0), (1, 1), (1, 2)},
   knowledge = [\<lparr>cells = {}, count = 0\<rparr>, \<lparr>cells = {(2, 0), (2, 1)}, count = 1\<rparr>]\<rparr>"
proof -
  have "add_sentence (record_move c1 (1, 0)) (1, 0) 1 =
    \<lparr>height = 3, width = 5, moves_made = {(0, 1), (1, 0)}, mines = {},
     safes = {(0, 0), (0, 1), (0, 2), (1, 0), (1, 1), (1, 2)},
     knowledge = [\<lparr>cells = {}, count = 0\<rparr>, \<lparr>cells = {(2, 0), (2, 1)}, count = 1\<rparr>]\<rparr>"
    by (simp add: c1_eq step3_ev adj_3_5_10)
  then have "extract_facts (add_sentence (record_move c1 (1, 0)) (1, 0) 1) =
    \<lparr>height = 3, width = 5, moves_made = {(0, 1), (1, 0)}, mines = {},
     safes = {(0, 0), (0, 1), (0, 2), (1, 0), (1, 1), (1, 2)},
     knowledge = [\<lparr>cells = {}, count = 0\<rparr>, \<lparr>cells = {(2, 0), (2, 1)}, count = 1\<rparr>]\<rparr>"
    by (simp add: step4_ev)
  then show ?thesis by (simp add: c2_def add_knowledge_def) (simp add: step5_ev)
qed

lemma c3_eq: "c3 =
  \<lparr>height = 3, width = 5, moves_made = {(0, 1), (0, 3), (1, 0)}, mines = {},
   safes = {(0, 0), (0, 1), (0, 2), (0, 3), (1, 0), (1, 1), (1, 2)},
   knowledge = [\<lparr>cells = {}, count = 0\<rparr>, \<lparr>cells = {(2, 0), (2, 1)}, count = 1\<rparr>,
                \<lparr>cells = {(0, 4), (1, 3), (1, 4)}, count = 1\<rparr>]\<rparr>"
proof -
  have "add_sentence (record_move c2 (0, 3)) (0, 3) 1 =
    \<lparr>height = 3, width = 5, moves_made = {(0, 1), (0, 3), (1, 0)}, mines = {},
     safes = {(0, 0), (0, 1), (0, 2), (0, 3), (1, 0), (1, 1), (1, 2)},
     knowledge = [\<lparr>cells = {}, count = 0\<rparr>, \<lparr>cells = {(2, 0), (2, 1)}, count = 1\<rparr>,
                  \<lparr>cells = {(0, 4), (1, 3), (1, 4)}, count = 1\<rparr>]\<rparr>"
    by (simp add: c2_eq step3_ev adj_3_5_03)
  then have "extract_facts (add_sentence (record_move c2 (0, 3)) (0, 3) 1) =
    \<lparr>height = 3, width = 5, moves_made = {(0, 1), (0, 3), (1, 0)}, mines = {},
     safes = {(0, 0), (0, 1), (0, 2), (0, 3), (1, 0), (1, 1), (1, 2)},
     knowledge = [\<lparr>cells = {}, count = 0\<rparr>, \<lparr>cells = {(2, 0), (2, 1)}, count = 1\<rparr>,
                  \<lparr>cells = {(0, 4), (1, 3), (1, 4)}, count = 1\<rparr>]\<rparr>"
    by (simp add: step4_ev)
  then show ?thesis by (simp add: c3_def add_knowledge_def) (simp add: step5_ev)
qed

lemma c4_pass_eq: "c4_pass =
  \<lparr>height = 3, width = 5, moves_made = {(0, 1), (0, 3), (1, 0), (1, 1)}, mines = {},
   safes = {(0, 0), (0, 1), (0, 2), (0, 3), (1, 0), (1, 1), (1, 2)},
   knowledge = [\<lparr>cells = {}, count = 0\<rparr>, \<lparr>cells = {(2, 0), (2, 1)}, count = 1\<rparr>,
                \<lparr>cells = {(0, 4), (1, 3), (1, 4)}, count = 1\<rparr>,
                \<lparr>cells = {(2, 0), (2, 1), (2, 2)}, count = 2\<rparr>]\<rparr>"
proof -
  have "add_sentence (record_move c3 (1, 1)) (1, 1) 2 =
    \<lparr>height = 3, width = 5, moves_made = {(0, 1), (0, 3), (1, 0), (1, 1)}, mines = {},
     safes = {(0, 0), (0, 1), (0, 2), (0, 3), (1, 0), (1, 1), (1, 2)},
     knowledge = [\<lparr>cells = {}, count = 0\<rparr>, \<lparr>cells = {(2, 0), (2, 1)}, count = 1\<rparr>,
                  \<lparr>cells = {(0, 4), (1, 3), (1, 4)}, count = 1\<rparr>,
                  \<lparr>cells = {(2, 0), (2, 1), (2, 2)}, count = 2\<rparr>]\<rparr>"
    by (simp add: c3_eq step3_ev adj_3_5_11)
  then show ?thesis by (simp add: c4_pass_def step4_ev)
qed

lemma c4_eq: "c4 = c4_pass"
proof -
  have "c4 = derive c4_pass" by (simp add: c4_def c4_pass_def add_knowledge_def)
  then show ?thesis by (simp add: c4_pass_eq step5_ev)
qed

lemma c4_pair: "derive_pair (knowledge c4_pass ! 3) (knowledge c4_pass ! 1) c4_pass
   = mark_mine c4_pass (2, 2)"
  by (simp add: c4_pass_eq derive_pair_def subtract_def Let_def insert_Diff_if)

lemma adj_1_4_01: "adjacent 1 4 (0, 1) = {(0, 0), (0, 2)}"
  by (simp add: adjacent_filter window_def)

lemma adj_1_4_03: "adjacent 1 4 (0, 3) = {(0, 2)}"
  by (simp add: adjacent_filter window_def)

lemma a1_eq: "a1 =
  \<lparr>height = 1, width = 4, moves_made = {(0, 1)}, mines = {}, safes = {(0, 1)},
   knowledge = [\<lparr>cells = {(0, 0), (0, 2)}, count = 1\<rparr>]\<rparr>"
proof -
  have "add_sentence (record_move (init 1 4) (0, 1)) (0, 1) 1 =
    \<lparr>height = 1, width = 4, moves_made = {(0, 1)}, mines = {}, safes = {(0, 1)},
     knowledge = [\<lparr>cells = {(0, 0), (0, 2)}, count = 1\<rparr>]\<rparr>"
    by (simp add: init_def step3_ev adj_1_4_01)
  then have "extract_facts (add_sentence (record_move (init 1 4) (0, 1)) (0, 1) 1) =
    \<lparr>height = 1, width = 4, moves_made = {(0, 1)}, mines = {}, safes = {(0, 1)},
     knowledge = [\<lparr>cells = {(0, 0), (0, 2)}, count = 1\<rparr>]\<rparr>"
    by (simp add: step4_ev)
  then show ?thesis by (simp add: a1_def add_knowledge_def) (simp add: step5_ev)
qed

lemma a2_scan_eq: "a2_scan =
  \<lparr>height = 1, width = 4, moves_made = {(0, 1), (0, 3)}, mines = {}, safes = {(0, 1), (0, 3)},
   knowledge = [\<lparr>cells = {(0, 0), (0, 2)}, count = 1\<rparr>, \<lparr>cells = {(0, 2)}, count = 1\<rparr>]\<rparr>"
  by (simp add: a2_scan_def a1_eq step3_ev adj_1_4_03)

lemma a2_pass_eq: "extract_facts a2_scan =
  \<lparr>height = 1, width = 4, moves_made = {(0, 1), (0, 3)}, mines = {(0, 2)},
   safes = {(0, 1), (0, 3)},
   knowledge = [\<lparr>cells = {(0, 0)}, count = 0\<rparr>, \<lparr>cells = {}, count = 0\<rparr>]\<rparr>"
  by (simp add: a2_scan_eq step4_ev)

lemma a2_eq: "add_knowledge a1 (0, 3) 1 = extract_facts a2_scan"
proof -
  have "add_knowledge a1 (0, 3) 1 = derive (extract_facts a2_scan)"
    by (simp add: a2_scan_def add_knowledge_def)
  then show ?thesis by (simp add: a2_pass_eq step5_ev)
qed

lemma honest_a: "honest game_a {} [Ingest (0, 1) 1, PickSafe [(0, 1)], PickFallback 0, Ingest (0, 3) 1]"
  by (simp add: nearby_mines_eq game_a_def adj_1_4_01 adj_1_4_03)

lemma honest_b: "honest game_b {} [Ingest (0, 1) 2, Ingest (0, 0) 1, Ingest (2, 1) 2]"
  by (simp add: nearby_mines_eq game_b_def adj_3_3_01 adj_3_3_00 adj_3_3_21)

lemma honest_c: "honest game_c {} [Ingest (0, 1) 0, Ingest (1, 0) 1, Ingest (0, 3) 1, Ingest (1, 1) 2]"
  by (simp add: nearby_mines_eq game_c_def adj_3_5_01 adj_3_5_10 adj_3_5_03 adj_3_5_11)

lemma run_b: "run (init 3 3) [Ingest (0, 1) 2, Ingest (0, 0) 1, Ingest (2, 1) 2] = b3"
  by (simp add: run_def b1_def b2_def b3_def)

lemma run_c: "run (init 3 5) [Ingest (0, 1) 0, Ingest (1, 0) 1, Ingest (0, 3) 1, Ingest (1, 1) 2] = c4"
  by (simp add: run_def c1_def c2_def c3_def c4_def)

section \<open>The remaining claims\<close>

text \<open>
  Claim C1 (the code departs from it).  Step 2 of \<open>add_knowledge\<close> is the set insertion
  \<open>self.safes.add(cell)\<close>, not a call of \<open>mark_safe\<close>.  In run B the second probe, (0, 0), is a
  cell of the sentence of the first probe: after step 2 it is in \<open>safes\<close> and still in that
  sentence, and it is still there when \<open>add_knowledge\<close> returns.  \<open>mark_safe\<close> on the same
  state removes it.
\<close>

theorem step2_leaves_cell_in_sentence:
  "(0, 0) \<in> safes (record_move b1 (0, 0))
   \<and> (0, 0) \<in> cells (knowledge (record_move b1 (0, 0)) ! 0)
   \<and> (0, 0) \<in> cells (knowledge (add_knowledge b1 (0, 0) 1) ! 0)
   \<and> (0, 0) \<notin> cells (knowledge (mark_safe b1 (0, 0)) ! 0)"
proof -
  have "(0, 0) \<in> cells (knowledge b2 ! 0)" by (simp add: b2_eq)
  then have "(0, 0) \<in> cells (knowledge (add_knowledge b1 (0, 0) 1) ! 0)"
    by (simp only: b2_def)
  moreover have "(0, 0) \<notin> cells (knowledge (mark_safe b1 (0, 0)) ! 0)"
    by (simp add: b1_eq mark_safe_def sentence_mark_safe_def)
  ultimately show ?thesis by (simp add: b2_record)
qed

text \<open>
  Claim C2.  Take any game and any list of calls of \<open>add_knowledge\<close>, \<open>make_safe_move\<close> and
  \<open>make_random_move\<close> on an engine created with the game's board size, in which every
  \<open>add_knowledge\<close> keeps the inbound contract.  After every prefix of the calls, \<open>mines\<close>
  and \<open>safes\<close> are disjoint.
\<close>

theorem mines_safes_disjoint:
  assumes "honest g {} calls"
  shows "mines (run (init (board_height g) (board_width g)) (take k calls))
         \<inter> safes (run (init (board_height g) (board_width g)) (take k calls)) = {}"
proof -
  have "honest g {} (take k calls)" using assms by (rule honest_take)
  with sound_init have "sound g (run (init (board_height g) (board_width g)) (take k calls))"
    by (rule sound_run)
  then show ?thesis by (rule sound_disjoint)
qed

theorem mines_safes_disjoint_witness:
  "honest game_a {} [Ingest (0, 1) 1, PickSafe [(0, 1)], PickFallback 0, Ingest (0, 3) 1]
   \<and> mines (run (init 1 4) [Ingest (0, 1) 1, PickSafe [(0, 1)], PickFallback 0, Ingest (0, 3) 1])
     \<inter> safes (run (init 1 4) [Ingest (0, 1) 1, PickSafe [(0, 1)], PickFallback 0, Ingest (0, 3) 1])
     = {}"
  using mines_safes_disjoint [OF honest_a, of 4] honest_a
  by (simp add: game_a_def)

text \<open>
  The derivation pass on a snapshot of four distinct sentences, unrolled: the pairs it runs
  are those of positions (0, 1), (0, 2), (0, 3), (2, 1) and (2, 3).
\<close>

lemma derive_from_four:
  assumes "distinct [x0, x1, x2, x3]"
  shows "derive_from 0 [x0, x1, x2, x3] st =
     derive_pair x2 x3 (derive_pair x2 x1
       (derive_pair x0 x3 (derive_pair x0 x2 (derive_pair x0 x1 st))))"
proof -
  have "derive_from 0 [x0, x1, x2, x3] st
      = derive_from (Suc 0) [x1, x2, x3] (fold (derive_pair x0) [x1, x2, x3] st)"
    by (simp add: derive_from_step)
  also have "\<dots> = derive_from (Suc (Suc 0)) [x1, x3]
      (fold (derive_pair x2) [x1, x3] (fold (derive_pair x0) [x1, x2, x3] st))"
    using assms by (simp add: derive_from_step)
  also have "\<dots> = fold (derive_pair x2) [x1, x3] (fold (derive_pair x0) [x1, x2, x3] st)"
    by (simp add: derive_from_done)
  finally show ?thesis by simp
qed

text \<open>
  Claim C3 (the code departs from it).  The outer loop of the derivation pass removes
  \<open>sen1\<close> from the list it is iterating over, so the iterator skips the element that moves
  into the freed position: sentences at odd positions of the snapshot are never \<open>sen1\<close>,
  and a pair of two of them is never examined (for four sentences, lemma
  \<open>derive_from_four\<close>).  In run C the snapshot of the fourth call
  holds \<open>{(2, 0), (2, 1)} = 1\<close> at position 1 and \<open>{(2, 0), (2, 1), (2, 2)} = 2\<close> at position 3.
  The subtraction rule on this pair marks (2, 2) as a mine; the pass changes nothing.
\<close>

theorem derivation_skips_pair:
  "knowledge c4_pass ! 1 = \<lparr>cells = {(2, 0), (2, 1)}, count = 1\<rparr>
   \<and> knowledge c4_pass ! 3 = \<lparr>cells = {(2, 0), (2, 1), (2, 2)}, count = 2\<rparr>
   \<and> derive_pair (knowledge c4_pass ! 3) (knowledge c4_pass ! 1) c4_pass = mark_mine c4_pass (2, 2)
   \<and> derive c4_pass = c4_pass
   \<and> (2, 2) \<notin> mines (add_knowledge c3 (1, 1) 2)"
proof -
  have d: "add_knowledge c3 (1, 1) 2 = derive c4_pass"
    by (simp add: c4_pass_def add_knowledge_def)
  have e: "derive c4_pass = c4_pass"
    using c4_eq by (simp only: c4_def d)
  have "(2, 2) \<notin> mines c4_pass" by (simp add: c4_pass_eq)
  then have "(2, 2) \<notin> mines (add_knowledge c3 (1, 1) 2)" by (simp add: d e)
  moreover have "knowledge c4_pass ! 1 = \<lparr>cells = {(2, 0), (2, 1)}, count = 1\<rparr>"
    and "knowledge c4_pass ! 3 = \<lparr>cells = {(2, 0), (2, 1), (2, 2)}, count = 2\<rparr>"
    by (simp_all add: c4_pass_eq)
  ultimately show ?thesis using c4_pair e by simp
qed

text \<open>
  Claim C4 (the code departs from it).  The docstring of \<open>add_knowledge\<close> and the comment
  above the loop say that this step marks any additional cell that can be concluded from
  the knowledge base.  The loop scans \<open>knowledge\<close> once and never looks again at a sentence
  it has passed.  In run A the second probe adds \<open>{(0, 2)} = 1\<close> behind
  \<open>{(0, 0), (0, 2)} = 1\<close>.  The scan passes the first sentence, then marks (0, 2) as a mine
  from the second, which turns the first into \<open>{(0, 0)} = 0\<close>.  When the scan ends, and
  still when \<open>add_knowledge\<close> returns, the first sentence says that (0, 0) is safe and
  (0, 0) is not in \<open>safes\<close>.
\<close>

theorem extraction_pass_misses_fact:
  "known_safes (knowledge (extract_facts a2_scan) ! 0) = {(0, 0)}
   \<and> (0, 0) \<notin> safes (extract_facts a2_scan)
   \<and> \<not> known_safes (knowledge (extract_facts a2_scan) ! 0) \<subseteq> safes (extract_facts a2_scan)
   \<and> known_safes (knowledge (add_knowledge a1 (0, 3) 1) ! 0) = {(0, 0)}
   \<and> (0, 0) \<notin> safes (add_knowledge a1 (0, 3) 1)"
  by (simp add: a2_eq a2_pass_eq known_safes_def)

text \<open>
  Claim C5, as stated, fails for the derivation pass.  In run B the second probe is
  (0, 0).  The pass subtracts \<open>{(1, 0), (1, 1)} = 1\<close> from the sentence of the first probe,
  which still contains (0, 0), and appends \<open>{(0, 0), (0, 2), (1, 2)} = 1\<close>: a sentence with
  a cell that has been in \<open>safes\<close> since before the pass began.
\<close>

theorem derived_sentence_has_safe_cell_counterexample:
  "derive_pair (knowledge b2_pass ! 0) (knowledge b2_pass ! 1) b2_pass
     = b2_pass\<lparr>knowledge := knowledge b2_pass @ [\<lparr>cells = {(0, 0), (0, 2), (1, 2)}, count = 1\<rparr>]\<rparr>
   \<and> (0, 0) \<in> safes b2_pass
   \<and> knowledge (add_knowledge b1 (0, 0) 1)
     = knowledge b2_pass @ [\<lparr>cells = {(0, 0), (0, 2), (1, 2)}, count = 1\<rparr>]"
proof -
  have "knowledge b2 = knowledge b2_pass @ [\<lparr>cells = {(0, 0), (0, 2), (1, 2)}, count = 1\<rparr>]"
    by (simp add: b2_eq b2_pass_eq)
  then have "knowledge (add_knowledge b1 (0, 0) 1)
      = knowledge b2_pass @ [\<lparr>cells = {(0, 0), (0, 2), (1, 2)}, count = 1\<rparr>]"
    by (simp only: b2_def)
  moreover have "derive_pair (knowledge b2_pass ! 0) (knowledge b2_pass ! 1) b2_pass
     = b2_pass\<lparr>knowledge := knowledge b2_pass @ [\<lparr>cells = {(0, 0), (0, 2), (1, 2)}, count = 1\<rparr>]\<rparr>"
    by (simp add: b2_pass_eq derive_pair_def subtract_def Let_def insert_Diff_if insert_eq_insert)
  moreover have "(0, 0) \<in> safes b2_pass" by (simp add: b2_pass_eq)
  ultimately show ?thesis by simp
qed

text \<open>
  Claim C5, amended.  Every cell of the sentence that \<open>add_knowledge\<close> builds from the probe
  is, when it is appended (step 3 of the docstring, step 4 of the specification), neither
  in \<open>mines\<close> nor in \<open>safes\<close>; that step appends this sentence or nothing and leaves
  \<open>mines\<close> and \<open>safes\<close> as they are.
\<close>

theorem probe_sentence_cells_unresolved:
  "cells (new_sen st c n) \<inter> mines st = {}
   \<and> cells (new_sen st c n) \<inter> safes st = {}
   \<and> (knowledge (add_sentence st c n) = knowledge st
      \<or> knowledge (add_sentence st c n) = knowledge st @ [new_sen st c n])
   \<and> mines (add_sentence st c n) = mines st
   \<and> safes (add_sentence st c n) = safes st"
  by (auto simp: new_sen_eq add_sentence_def)

text \<open>
  Claim C7 (the code departs from it).  The append of the probe's sentence tests \<open>new_sen not in self.knowledge\<close> before
  it appends; the derivation pass appends \<open>Sentence(diff_set, diff_count)\<close> with no test.
  In run B the third call, the honest probe of (2, 1), derives again the two sentences
  that are already at positions 2 and 1 and appends both.
\<close>

theorem derivation_appends_duplicates:
  "knowledge (add_knowledge b2 (2, 1) 2)
     = knowledge b3_pass @ [\<lparr>cells = {(0, 0), (0, 2), (1, 2)}, count = 1\<rparr>,
                            \<lparr>cells = {(1, 0), (1, 1)}, count = 1\<rparr>]
   \<and> knowledge b3_pass ! 2 = \<lparr>cells = {(0, 0), (0, 2), (1, 2)}, count = 1\<rparr>
   \<and> knowledge b3_pass ! 1 = \<lparr>cells = {(1, 0), (1, 1)}, count = 1\<rparr>
   \<and> \<not> distinct (knowledge (add_knowledge b2 (2, 1) 2))"
proof -
  have k: "knowledge b3
     = knowledge b3_pass @ [\<lparr>cells = {(0, 0), (0, 2), (1, 2)}, count = 1\<rparr>,
                            \<lparr>cells = {(1, 0), (1, 1)}, count = 1\<rparr>]"
    by (simp add: b3_eq b3_pass_eq)
  have "\<not> distinct (knowledge b3)" by (simp add: b3_eq)
  with k have "knowledge (add_knowledge b2 (2, 1) 2)
     = knowledge b3_pass @ [\<lparr>cells = {(0, 0), (0, 2), (1, 2)}, count = 1\<rparr>,
                            \<lparr>cells = {(1, 0), (1, 1)}, count = 1\<rparr>]
     \<and> \<not> distinct (knowledge (add_knowledge b2 (2, 1) 2))"
    by (simp only: b3_def) simp
  then show ?thesis by (simp add: b3_pass_eq)
qed

text \<open>
  Claim C8, as stated, fails: \<open>add_knowledge\<close> has no validation and no error result.
  Called on a fresh 3 by 3 engine with the negative count \<open>-1\<close>, it records the cell,
  stores a sentence with count \<open>-1\<close> and returns the changed state.
\<close>

theorem malformed_absorbed_counterexample:
  "add_knowledge (init 3 3) (0, 0) (- 1) =
     \<lparr>height = 3, width = 3, moves_made = {(0, 0)}, mines = {}, safes = {(0, 0)},
      knowledge = [\<lparr>cells = {(0, 1), (1, 0), (1, 1)}, count = - 1\<rparr>]\<rparr>
   \<and> add_knowledge (init 3 3) (0, 0) (- 1) \<noteq> init 3 3"
proof -
  have "add_sentence (record_move (init 3 3) (0, 0)) (0, 0) (- 1) =
    \<lparr>height = 3, width = 3, moves_made = {(0, 0)}, mines = {}, safes = {(0, 0)},
     knowledge = [\<lparr>cells = {(0, 1), (1, 0), (1, 1)}, count = - 1\<rparr>]\<rparr>"
    by (simp add: init_def step3_ev adj_3_3_00)
  then have "extract_facts (add_sentence (record_move (init 3 3) (0, 0)) (0, 0) (- 1)) =
    \<lparr>height = 3, width = 3, moves_made = {(0, 0)}, mines = {}, safes = {(0, 0)},
     knowledge = [\<lparr>cells = {(0, 1), (1, 0), (1, 1)}, count = - 1\<rparr>]\<rparr>"
    by (simp add: step4_ev)
  then have "add_knowledge (init 3 3) (0, 0) (- 1) =
     \<lparr>height = 3, width = 3, moves_made = {(0, 0)}, mines = {}, safes = {(0, 0)},
      knowledge = [\<lparr>cells = {(0, 1), (1, 0), (1, 1)}, count = - 1\<rparr>]\<rparr>"
    by (simp add: add_knowledge_def) (simp add: step5_ev)
  then show ?thesis by (simp add: init_def)
qed

text \<open>
  Claim C8, amended.  \<open>add_knowledge\<close> accepts every cell and every count, malformed or
  not: the call returns with the cell added to \<open>moves_made\<close> and to \<open>safes\<close>, and the
  sentence built from the supplied count is in \<open>knowledge\<close> after step 3.
\<close>

theorem no_validation:
  "moves_made (add_knowledge st c n) = insert c (moves_made st)
   \<and> insert c (safes st) \<subseteq> safes (add_knowledge st c n)
   \<and> new_sen (record_move st c) c n \<in> set (knowledge (add_sentence (record_move st c) c n))"
  by (simp add: moves_made_add_knowledge safes_add_knowledge add_sentence_def del: insert_subset)

end
